theory Spec2Isabelle
  imports Complex_Main "HOL-Library.Multiset"
begin

section \<open>ArchSync consensus engine: embedding of src/lib/clustering.ts\<close>

text \<open>
  The TypeScript type \<^verbatim>\<open>number\<close> is modelled by \<^typ>\<open>real\<close>: the development is about
  the arithmetic the code writes down, not about IEEE-754 rounding, overflow or NaN.
  A thrown exception is a value \<open>Inl e\<close> of the result type \<open>error + 'a\<close>.
\<close>

subsection \<open>Data model (src/lib/db-types.ts, src/lib/clustering.ts)\<close>

record Understanding =
  id_u :: string
  project_id :: string
  developer_name :: string
  change_description :: "string option"
  module_name_u :: string
  understanding_text :: string
  confidence_score :: "real option"
  embedding :: "real list option"
  created_at :: string

record Cluster =
  id_c :: nat
  understandings :: "Understanding list"
  representative_text :: string
  size_c :: nat
  percentage :: real

text \<open>
  \<open>Error msg\<close> is \<^verbatim>\<open>new Error(msg)\<close>; \<open>TypeError\<close> is what the runtime raises when a
  property of \<^verbatim>\<open>null\<close> or \<^verbatim>\<open>undefined\<close> is read.
\<close>

datatype error = Error string | TypeError

subsection \<open>cosineSimilarity\<close>

text \<open>One round of the loop body at lines 24-28, on the three accumulators.\<close>

definition cosineStep ::
  "real list \<Rightarrow> real list \<Rightarrow> nat \<Rightarrow> real \<times> real \<times> real \<Rightarrow> real \<times> real \<times> real" where
  "cosineStep vecA vecB i acc =
     (case acc of (dotProduct, magnitudeA, magnitudeB) \<Rightarrow>
        (dotProduct + vecA ! i * vecB ! i,
         magnitudeA + vecA ! i * vecA ! i,
         magnitudeB + vecB ! i * vecB ! i))"

definition cosineSimilarity :: "real list \<Rightarrow> real list \<Rightarrow> error + real" where
  "cosineSimilarity vecA vecB =
     (if length vecA \<noteq> length vecB then Inl (Error ''Vectors must have the same length'')
      else
        (case fold (cosineStep vecA vecB) [0..<length vecA] (0, 0, 0) of
           (dotProduct, magnitudeA, magnitudeB) \<Rightarrow>
             (if sqrt magnitudeA = 0 \<or> sqrt magnitudeB = 0 then Inr 0
              else Inr (dotProduct / (sqrt magnitudeA * sqrt magnitudeB)))))"

subsection \<open>clusterUnderstandings\<close>

definition SIMILARITY_THRESHOLD :: real where
  "SIMILARITY_THRESHOLD = 0.75"

text \<open>The filter predicate of line 48: the embedding is neither null nor empty.\<close>

definition hasEmbedding :: "Understanding \<Rightarrow> bool" where
  "hasEmbedding u = (case embedding u of None \<Rightarrow> False | Some e \<Rightarrow> length e > 0)"

text \<open>
  \<^verbatim>\<open>cosineSimilarity(a.embedding!, b.embedding!)\<close>: the non-null assertion is erased at
  run time, so a null embedding makes the read of \<^verbatim>\<open>.length\<close> raise a TypeError.
\<close>

definition similarity :: "Understanding \<Rightarrow> Understanding \<Rightarrow> error + real" where
  "similarity a b =
     (case embedding a of
        None \<Rightarrow> Inl TypeError
      | Some vecA \<Rightarrow>
          (case embedding b of
             None \<Rightarrow> Inl TypeError
           | Some vecB \<Rightarrow> cosineSimilarity vecA vecB))"

text \<open>
  Lines 67-77: the scan over all clusters for the two identifiers. Every matching
  \<open>k\<close> overwrites the index found so far; \<open>-1\<close> means not found.
\<close>

definition findStep ::
  "Understanding list list \<Rightarrow> string \<Rightarrow> string \<Rightarrow> nat \<Rightarrow> int \<times> int \<Rightarrow> int \<times> int" where
  "findStep clusters idI idJ k acc =
     (case acc of (clusterI, clusterJ) \<Rightarrow>
        (if list_ex (\<lambda>u. id_u u = idI) (clusters ! k) then int k else clusterI,
         if list_ex (\<lambda>u. id_u u = idJ) (clusters ! k) then int k else clusterJ))"

definition findClusters ::
  "Understanding list list \<Rightarrow> string \<Rightarrow> string \<Rightarrow> int \<times> int" where
  "findClusters clusters idI idJ =
     fold (findStep clusters idI idJ) [0..<length clusters] (- 1, - 1)"

text \<open>\<^verbatim>\<open>xs.splice(k, 1)\<close> for \<open>k \<ge> 0\<close>: the element at index \<open>k\<close> is removed.\<close>

definition splice1 :: "nat \<Rightarrow> 'a list \<Rightarrow> 'a list" where
  "splice1 k xs = take k xs @ drop (Suc k) xs"

text \<open>Lines 80-83.\<close>

definition mergeClusters ::
  "Understanding list list \<Rightarrow> int \<Rightarrow> int \<Rightarrow> Understanding list list" where
  "mergeClusters clusters clusterI clusterJ =
     (if clusterI \<noteq> clusterJ \<and> clusterI \<noteq> - 1 \<and> clusterJ \<noteq> - 1
      then splice1 (nat clusterJ)
             (clusters[nat clusterI := clusters ! nat clusterI @ clusters ! nat clusterJ])
      else clusters)"

text \<open>The body of the inner loop (lines 60-84) for the index pair \<open>(i, j)\<close>.\<close>

definition pairStep ::
  "Understanding list \<Rightarrow> nat \<times> nat \<Rightarrow> Understanding list list
     \<Rightarrow> error + Understanding list list" where
  "pairStep validUnderstandings p clusters =
     (case p of (i, j) \<Rightarrow>
        (case similarity (validUnderstandings ! i) (validUnderstandings ! j) of
           Inl e \<Rightarrow> Inl e
         | Inr s \<Rightarrow>
             (if s \<ge> SIMILARITY_THRESHOLD
              then (case findClusters clusters (id_u (validUnderstandings ! i))
                           (id_u (validUnderstandings ! j)) of
                      (clusterI, clusterJ) \<Rightarrow> Inr (mergeClusters clusters clusterI clusterJ))
              else Inr clusters)))"

text \<open>
  The two nested loops of lines 58-59 visit the index pairs in the order \<open>indexPairs n\<close>;
  \<open>mergeLoop\<close> runs the loop body over a list of pairs and stops at the first exception.
\<close>

definition indexPairs :: "nat \<Rightarrow> (nat \<times> nat) list" where
  "indexPairs n = concat (map (\<lambda>i. map (\<lambda>j. (i, j)) [i + 1..<n]) [0..<n])"

fun mergeLoop ::
  "Understanding list \<Rightarrow> (nat \<times> nat) list \<Rightarrow> Understanding list list
     \<Rightarrow> error + Understanding list list" where
  "mergeLoop validUnderstandings [] clusters = Inr clusters"
| "mergeLoop validUnderstandings (p # ps) clusters =
     (case pairStep validUnderstandings p clusters of
        Inl e \<Rightarrow> Inl e
      | Inr clusters' \<Rightarrow> mergeLoop validUnderstandings ps clusters')"

text \<open>
  \<^verbatim>\<open>Array.prototype.sort\<close> with a comparator is a stable sort (ECMAScript 2019): an
  element moves behind exactly those it compares greater than. \<open>sortBy\<close> is the stable
  insertion sort with that behaviour; \<open>compareSize\<close> is the comparator of line 89.
\<close>

fun insertBy :: "('a \<Rightarrow> 'a \<Rightarrow> int) \<Rightarrow> 'a \<Rightarrow> 'a list \<Rightarrow> 'a list" where
  "insertBy cmp x [] = [x]"
| "insertBy cmp x (y # ys) = (if cmp x y > 0 then y # insertBy cmp x ys else x # y # ys)"

definition sortBy :: "('a \<Rightarrow> 'a \<Rightarrow> int) \<Rightarrow> 'a list \<Rightarrow> 'a list" where
  "sortBy cmp xs = foldr (insertBy cmp) xs []"

definition compareSize :: "'a list \<Rightarrow> 'a list \<Rightarrow> int" where
  "compareSize a b = int (length b) - int (length a)"

text \<open>Lines 101-109: the sum of the similarities of member \<open>i\<close> to every other member.\<close>

definition totalStep ::
  "Understanding list \<Rightarrow> nat \<Rightarrow> nat \<Rightarrow> error + real \<Rightarrow> error + real" where
  "totalStep c i j acc =
     (case acc of
        Inl e \<Rightarrow> Inl e
      | Inr totalSimilarity \<Rightarrow>
          (if i \<noteq> j
           then (case similarity (c ! i) (c ! j) of
                   Inl e \<Rightarrow> Inl e
                 | Inr s \<Rightarrow> Inr (totalSimilarity + s))
           else Inr totalSimilarity))"

definition totalSimilarity :: "Understanding list \<Rightarrow> nat \<Rightarrow> error + real" where
  "totalSimilarity c i = fold (totalStep c i) [0..<length c] (Inr 0)"

text \<open>
  Lines 100-115: one round of the outer loop on the pair
  (representativeIndex, maxAvgSimilarity).
\<close>

definition repStep ::
  "Understanding list \<Rightarrow> nat \<Rightarrow> error + nat \<times> real \<Rightarrow> error + nat \<times> real" where
  "repStep c i acc =
     (case acc of
        Inl e \<Rightarrow> Inl e
      | Inr (representativeIndex, maxAvgSimilarity) \<Rightarrow>
          (case totalSimilarity c i of
             Inl e \<Rightarrow> Inl e
           | Inr tot \<Rightarrow>
               (let avgSimilarity = tot / (real (length c) - 1)
                in if avgSimilarity > maxAvgSimilarity then Inr (i, avgSimilarity)
                   else Inr (representativeIndex, maxAvgSimilarity))))"

definition representativeIndex :: "Understanding list \<Rightarrow> error + nat" where
  "representativeIndex c =
     (if length c > 1
      then (case fold (repStep c) [0..<length c] (Inr (0, - 1)) of
              Inl e \<Rightarrow> Inl e
            | Inr (r, m) \<Rightarrow> Inr r)
      else Inr 0)"

text \<open>
  The callback of \<^verbatim>\<open>clusters.map\<close> (lines 94-125). Reading
  \<^verbatim>\<open>.understanding_text\<close> of a missing element raises a TypeError.
\<close>

definition toCluster :: "nat \<Rightarrow> nat \<Rightarrow> Understanding list \<Rightarrow> error + Cluster" where
  "toCluster totalUnderstandings index c =
     (case representativeIndex c of
        Inl e \<Rightarrow> Inl e
      | Inr r \<Rightarrow>
          (if r < length c
           then Inr \<lparr>id_c = index + 1,
                     understandings = c,
                     representative_text = understanding_text (c ! r),
                     size_c = length c,
                     percentage = (real (length c) / real totalUnderstandings) * 100\<rparr>
           else Inl TypeError))"

fun toClusters :: "nat \<Rightarrow> nat \<Rightarrow> Understanding list list \<Rightarrow> error + Cluster list" where
  "toClusters totalUnderstandings index [] = Inr []"
| "toClusters totalUnderstandings index (c # cs) =
     (case toCluster totalUnderstandings index c of
        Inl e \<Rightarrow> Inl e
      | Inr x \<Rightarrow>
          (case toClusters totalUnderstandings (Suc index) cs of
             Inl e \<Rightarrow> Inl e
           | Inr xs \<Rightarrow> Inr (x # xs)))"

definition clusterUnderstandings :: "Understanding list \<Rightarrow> error + Cluster list" where
  "clusterUnderstandings us =
     (let validUnderstandings = filter hasEmbedding us
      in if length validUnderstandings = 0 then Inr []
         else
           (case mergeLoop validUnderstandings (indexPairs (length validUnderstandings))
                   (map (\<lambda>u. [u]) validUnderstandings) of
              Inl e \<Rightarrow> Inl e
            | Inr clusters \<Rightarrow>
                toClusters (length validUnderstandings) 0 (sortBy compareSize clusters)))"

subsection \<open>calculateConsensus\<close>

definition calculateConsensus :: "Cluster list \<Rightarrow> real" where
  "calculateConsensus clusters =
     (if length clusters = 0 then 0 else percentage (clusters ! 0))"

subsection \<open>ADR status (src/app/api/adr/generate/route.ts, lines 107-109)\<close>

definition adrStatus :: "real \<Rightarrow> string" where
  "adrStatus consensusPercentage =
     (if consensusPercentage > 70 then ''Accepted''
      else if consensusPercentage \<ge> 50 then ''Proposed''
      else ''Under Discussion'')"

section \<open>Notions used to state the properties\<close>

subsection \<open>Vectors\<close>

text \<open>
  The textbook dot product and Euclidean magnitude of lists of reals, and the cosine of
  two vectors with the convention that a vector of magnitude zero has cosine 0 with
  everything. They are stated independently of the loop of cosineSimilarity.
\<close>

definition dotProduct :: "real list \<Rightarrow> real list \<Rightarrow> real" where
  "dotProduct a b = sum_list (map2 (*) a b)"

definition magnitude :: "real list \<Rightarrow> real" where
  "magnitude a = sqrt (sum_list (map (\<lambda>x. x * x) a))"

definition cosine :: "real list \<Rightarrow> real list \<Rightarrow> real" where
  "cosine a b =
     (if magnitude a = 0 \<or> magnitude b = 0 then 0
      else dotProduct a b / (magnitude a * magnitude b))"

subsection \<open>Statements and the threshold graph\<close>

text \<open>
  \<open>uniformDim vs\<close>: all embeddings in \<open>vs\<close> have one length (the data model's
  fixed-length embedding). \<open>vec u\<close> is the embedding as a plain vector.
  \<open>similar u v\<close>: the similarity computed by the code is at least the threshold.
  \<open>linked vs\<close> is the graph on \<open>vs\<close> whose edges are the similar pairs, and
  \<open>components vs\<close> its connected components: the classes of \<open>vs\<close> under
  reachability in that graph.
\<close>

definition uniformDim :: "Understanding list \<Rightarrow> bool" where
  "uniformDim vs \<longleftrightarrow>
     (\<forall>u\<in>set vs. \<forall>v\<in>set vs. map_option length (embedding u) = map_option length (embedding v))"

definition vec :: "Understanding \<Rightarrow> real list" where
  "vec u = (case embedding u of None \<Rightarrow> [] | Some e \<Rightarrow> e)"




subsection \<open>Cluster lists\<close>

text \<open>
  \<open>sameCluster cl x y\<close>: some cluster of the list \<open>cl\<close> holds both \<open>x\<close> and \<open>y\<close>.
  \<open>edge vs p\<close> is the pair of graph edges that the loop body adds for the index pair
  \<open>p\<close>, and \<open>linkInv vs E cl\<close> the loop invariant of the merge loop: \<open>cl\<close>
  partitions \<open>vs\<close> into non-empty clusters, and two statements share a cluster
  exactly when the edges \<open>E\<close> seen so far connect them.
  \<open>mergedClusters us\<close> names the cluster list the merge loop leaves, before sorting.
\<close>

definition sameCluster :: "'a list list \<Rightarrow> 'a \<Rightarrow> 'a \<Rightarrow> bool" where
  "sameCluster cl x y = (\<exists>c\<in>set cl. x \<in> set c \<and> y \<in> set c)"



definition mergedClusters :: "Understanding list \<Rightarrow> Understanding list list" where
  "mergedClusters us =
     (case mergeLoop (filter hasEmbedding us) (indexPairs (length (filter hasEmbedding us)))
             (map (\<lambda>u. [u]) (filter hasEmbedding us)) of
        Inl e \<Rightarrow> []
      | Inr cl \<Rightarrow> cl)"

subsection \<open>Average similarity of a member to its peers\<close>

text \<open>
  \<open>simValue u v\<close> is the number cosineSimilarity returns for the two embeddings.
  \<open>avgSimilarity c i\<close> is the average of \<open>simValue\<close> between member \<open>i\<close> of the
  cluster \<open>c\<close> and every other member. \<open>repInv avg m r mx\<close> is the invariant of the
  loop that selects the representative, after \<open>m\<close> rounds: either no average so far
  exceeded the initial \<open>-1\<close>, or \<open>r\<close> is the first index at which the largest
  average so far is attained.
\<close>

definition simValue :: "Understanding \<Rightarrow> Understanding \<Rightarrow> real" where
  "simValue u v = (case similarity u v of Inl e \<Rightarrow> 0 | Inr s \<Rightarrow> s)"

definition avgSimilarity :: "Understanding list \<Rightarrow> nat \<Rightarrow> real" where
  "avgSimilarity c i =
     (\<Sum>j\<in>{..<length c} - {i}. simValue (c ! i) (c ! j)) / (real (length c) - 1)"

definition repInv :: "(nat \<Rightarrow> real) \<Rightarrow> nat \<Rightarrow> nat \<Rightarrow> real \<Rightarrow> bool" where
  "repInv avg m r mx \<longleftrightarrow>
     (if \<forall>k<m. avg k \<le> - 1 then r = 0 \<and> mx = - 1
      else r < m \<and> mx = avg r \<and> - 1 < mx \<and> (\<forall>k<m. avg k \<le> avg r) \<and> (\<forall>k<r. avg k < avg r))"

subsection \<open>Example statements\<close>

text \<open>
  Four statements of dimension three whose embeddings all have magnitude \<open>sqrt 5\<close>:
  \<open>exA\<close> and \<open>exB\<close> have cosine 3/5, as have \<open>exC\<close> and \<open>exD\<close>; every other pair
  has cosine 4/5. One statement without an embedding, one with an empty embedding, and
  one whose embedding has a different length.
\<close>

definition mkUnderstanding :: "string \<Rightarrow> string \<Rightarrow> real list option \<Rightarrow> Understanding" where
  "mkUnderstanding i t e =
     \<lparr>id_u = i, project_id = ''p1'', developer_name = ''dev'', change_description = None,
      module_name_u = ''auth'', understanding_text = t, confidence_score = None,
      embedding = e, created_at = ''2025-01-01''\<rparr>"

definition exA :: Understanding where "exA = mkUnderstanding ''a'' ''text A'' (Some [2, 1, 0])"

definition exB :: Understanding where "exB = mkUnderstanding ''b'' ''text B'' (Some [2, - 1, 0])"

definition exC :: Understanding where "exC = mkUnderstanding ''c'' ''text C'' (Some [2, 0, 1])"

definition exD :: Understanding where "exD = mkUnderstanding ''d'' ''text D'' (Some [2, 0, - 1])"

definition exNull :: Understanding where "exNull = mkUnderstanding ''n'' ''text N'' None"

definition exEmpty :: Understanding where "exEmpty = mkUnderstanding ''e'' ''text E'' (Some [])"

definition exShort :: Understanding where "exShort = mkUnderstanding ''s'' ''text S'' (Some [1])"

section \<open>Properties of cosineSimilarity\<close>

text \<open>
  C7: called with two vectors of different lengths, cosineSimilarity always fails with
  the explicit error "Vectors must have the same length", handed to its caller as the
  result; no similarity value is computed from a truncated or padded input.
\<close>

theorem cosineSimilarity_length_mismatch:
  "length vecA \<noteq> length vecB \<Longrightarrow>
     cosineSimilarity vecA vecB = Inl (Error ''Vectors must have the same length'')"
  by (simp add: cosineSimilarity_def)

theorem cosineSimilarity_length_mismatch_witness:
  "length [1, 2 :: real] \<noteq> length [1 :: real] \<and>
   cosineSimilarity [1, 2] [1] = Inl (Error ''Vectors must have the same length'')"
  using cosineSimilarity_length_mismatch [of "[1, 2]" "[1]"] by simp

text \<open>The three accumulators of the loop are the three sums over the indices.\<close>

lemma fold_cosineStep:
  "fold (cosineStep a b) [0..<n] (d, ma, mb) =
     (d + (\<Sum>i<n. a ! i * b ! i), ma + (\<Sum>i<n. a ! i * a ! i), mb + (\<Sum>i<n. b ! i * b ! i))"
  by (induction n) (simp_all add: cosineStep_def)

lemma sum_list_map2_nth:
  "length a = length b \<Longrightarrow> sum_list (map2 (*) a b) = (\<Sum>i<length a. a ! i * (b ! i :: real))"
proof -
  assume l: "length a = length b"
  have "sum_list (map2 (*) a b) = (\<Sum>i = 0..<length (map2 (*) a b). map2 (*) a b ! i)"
    by (rule sum_list_sum_nth)
  also have "\<dots> = (\<Sum>i = 0..<length a. a ! i * b ! i)"
    using l by (intro sum.cong) auto
  finally show ?thesis by (simp add: lessThan_atLeast0)
qed

lemma sum_list_sq_nth:
  "sum_list (map (\<lambda>x. x * x) a) = (\<Sum>i<length a. a ! i * (a ! i :: real))"
proof -
  have "sum_list (map (\<lambda>x. x * x) a) = (\<Sum>i = 0..<length (map (\<lambda>x. x * x) a). map (\<lambda>x. x * x) a ! i)"
    by (rule sum_list_sum_nth)
  also have "\<dots> = (\<Sum>i = 0..<length a. a ! i * a ! i)"
    by (intro sum.cong) auto
  finally show ?thesis by (simp add: lessThan_atLeast0)
qed

text \<open>
  The Cauchy-Schwarz inequality for finite sums, from the fact that the quadratic
  \<open>t \<mapsto> \<Sum>i. (t * f i + g i)\<^sup>2\<close> is never negative.
\<close>

lemma cauchy_schwarz_sum:
  fixes f g :: "nat \<Rightarrow> real"
  shows "(\<Sum>i<n. f i * g i)\<^sup>2 \<le> (\<Sum>i<n. f i * f i) * (\<Sum>i<n. g i * g i)"
proof -
  define A where "A = (\<Sum>i<n. f i * f i)"
  define B where "B = (\<Sum>i<n. g i * g i)"
  define D where "D = (\<Sum>i<n. f i * g i)"
  have quad: "0 \<le> t * t * A + 2 * t * D + B" for t
  proof -
    have "0 \<le> (\<Sum>i<n. (t * f i + g i) * (t * f i + g i))"
      by (intro sum_nonneg) simp
    also have "(\<Sum>i<n. (t * f i + g i) * (t * f i + g i))
                = (\<Sum>i<n. t * t * (f i * f i) + 2 * t * (f i * g i) + g i * g i)"
      by (intro sum.cong) (auto simp: algebra_simps)
    also have "\<dots> = t * t * A + 2 * t * D + B"
      by (simp add: sum.distrib sum_distrib_left A_def B_def D_def)
    finally show ?thesis .
  qed
  have A0: "0 \<le> A" unfolding A_def by (intro sum_nonneg) simp
  show ?thesis
  proof (cases "A = 0")
    case True
    have "0 \<le> (- D) * (- D) * A + 2 * (- D) * D + B" "0 \<le> D * D * A + 2 * D * D + B"
      using quad[of "- D"] quad[of D] by simp_all
    hence "2 * (D * D) \<le> B" "- 2 * (D * D) \<le> B" using True by simp_all
    have "0 \<le> t * (2 * D) + B" for t using quad[of t] True by (simp add: algebra_simps)
    from this[of "- (B + 1) / (2 * D)"] have "D = 0"
      by (cases "D = 0") (auto simp: field_simps)
    thus ?thesis using True by (simp add: A_def D_def)
  next
    case False
    hence Apos: "0 < A" using A0 by simp
    have "0 \<le> (- D / A) * (- D / A) * A + 2 * (- D / A) * D + B" by (rule quad)
    also have "(- D / A) * (- D / A) * A + 2 * (- D / A) * D + B = B - D * D / A"
      using False by (simp add: field_simps)
    finally have "D * D / A \<le> B" by simp
    hence "D * D \<le> B * A" using Apos by (simp add: field_simps)
    thus ?thesis by (simp add: A_def B_def D_def power2_eq_square mult.commute)
  qed
qed

lemma cosineSimilarity_cosine:
  "length a = length b \<Longrightarrow> cosineSimilarity a b = Inr (cosine a b)"
  by (simp add: cosineSimilarity_def fold_cosineStep cosine_def magnitude_def dotProduct_def
      sum_list_map2_nth sum_list_sq_nth)

lemma abs_dotProduct_le:
  assumes "length a = length b"
  shows "\<bar>dotProduct a b\<bar> \<le> magnitude a * magnitude b"
proof -
  have "(dotProduct a b)\<^sup>2 \<le> (\<Sum>i<length a. a ! i * a ! i) * (\<Sum>i<length a. b ! i * b ! i)"
    using assms cauchy_schwarz_sum[of "\<lambda>i. a ! i" "\<lambda>i. b ! i" "length a"]
    by (simp add: dotProduct_def sum_list_map2_nth)
  hence "sqrt ((dotProduct a b)\<^sup>2) \<le> sqrt ((\<Sum>i<length a. a ! i * a ! i) * (\<Sum>i<length a. b ! i * b ! i))"
    by (simp only: real_sqrt_le_iff)
  thus ?thesis
    using assms by (simp add: magnitude_def sum_list_sq_nth real_sqrt_mult)
qed

lemma magnitude_nonneg: "0 \<le> magnitude a"
  by (simp add: magnitude_def) (rule sum_list_nonneg, auto)

lemma cosine_bounds:
  assumes "length a = length b"
  shows "- 1 \<le> cosine a b \<and> cosine a b \<le> 1"
proof (cases "magnitude a = 0 \<or> magnitude b = 0")
  case True
  then show ?thesis by (simp add: cosine_def)
next
  case False
  hence pos: "0 < magnitude a * magnitude b"
    using magnitude_nonneg[of a] magnitude_nonneg[of b] by (simp add: less_le)
  have "dotProduct a b \<le> magnitude a * magnitude b"
       "- (magnitude a * magnitude b) \<le> dotProduct a b"
    using abs_dotProduct_le[OF assms] by linarith+
  hence "dotProduct a b / (magnitude a * magnitude b) \<le> 1"
        "- 1 \<le> dotProduct a b / (magnitude a * magnitude b)"
    using pos by (simp_all add: pos_divide_le_eq pos_le_divide_eq)
  thus ?thesis using False by (simp add: cosine_def)
qed






section \<open>The merge loop\<close>

subsection \<open>Finding the clusters of two statements\<close>





lemma fold_findStep_range:
  "m \<le> length cl \<Longrightarrow> fold (findStep cl idI idJ) [0..<m] (- 1, - 1) = (a, b) \<Longrightarrow>
     (a = - 1 \<or> (0 \<le> a \<and> a < int m)) \<and> (b = - 1 \<or> (0 \<le> b \<and> b < int m))"
proof (induction m arbitrary: a b)
  case 0
  then show ?case by simp
next
  case (Suc m)
  obtain a' b' where f: "fold (findStep cl idI idJ) [0..<m] (- 1, - 1) = (a', b')"
    by (cases "fold (findStep cl idI idJ) [0..<m] (- 1, - 1)")
  have IH: "(a' = - 1 \<or> (0 \<le> a' \<and> a' < int m)) \<and> (b' = - 1 \<or> (0 \<le> b' \<and> b' < int m))"
    using Suc.IH[OF _ f] Suc.prems(1) by simp
  have "(a, b) = findStep cl idI idJ m (a', b')" using Suc.prems(2) f by simp
  thus ?case using IH by (auto simp: findStep_def split: if_splits)
qed

lemma findClusters_range:
  "findClusters cl idI idJ = (a, b) \<Longrightarrow>
     (a = - 1 \<or> (0 \<le> a \<and> a < int (length cl))) \<and> (b = - 1 \<or> (0 \<le> b \<and> b < int (length cl)))"
  unfolding findClusters_def by (rule fold_findStep_range[of "length cl"]) simp_all

subsection \<open>Merging two clusters\<close>

text \<open>
  The list update followed by the splice replaces two entries of the cluster list by
  their concatenation, which stands where the first of the two stood if that one came
  first, and one place earlier otherwise.
\<close>

lemma mergeClusters_decomp:
  assumes "a \<noteq> b" "a < length cl" "b < length cl"
  shows "\<exists>P Q R. (cl = P @ cl ! a # Q @ cl ! b # R \<and>
                   mergeClusters cl (int a) (int b) = P @ (cl ! a @ cl ! b) # Q @ R)
               \<or> (cl = P @ cl ! b # Q @ cl ! a # R \<and>
                   mergeClusters cl (int a) (int b) = P @ Q @ (cl ! a @ cl ! b) # R)"
proof (cases "a < b")
  case True
  define P where "P = take a cl"
  define S where "S = drop (Suc a) cl"
  have cl1: "cl = P @ cl ! a # S" using assms(2) by (simp add: P_def S_def id_take_nth_drop)
  have lP: "length P = a" using assms(2) by (simp add: P_def)
  define k where "k = b - Suc a"
  have k: "k < length S" "b = Suc a + k" using True assms(3) by (simp_all add: k_def S_def)
  define Q where "Q = take k S"
  define R where "R = drop (Suc k) S"
  have S1: "S = Q @ S ! k # R" using k(1) by (simp add: Q_def R_def id_take_nth_drop)
  have lQ: "length Q = k" using k(1) by (simp add: Q_def)
  have Sk: "S ! k = cl ! b" using k assms by (simp add: S_def)
  have cl2: "cl = P @ cl ! a # Q @ cl ! b # R" using cl1 S1 Sk by simp
  have "mergeClusters cl (int a) (int b) = splice1 b (cl[a := cl ! a @ cl ! b])"
    using assms(1) by (simp add: mergeClusters_def)
  also have "cl[a := cl ! a @ cl ! b] = P @ (cl ! a @ cl ! b) # Q @ cl ! b # R"
    by (subst cl2) (simp add: list_update_append lP)
  also have "splice1 b \<dots> = P @ (cl ! a @ cl ! b) # Q @ R"
    using lP lQ k(2) by (simp add: splice1_def)
  finally show ?thesis using cl2 by blast
next
  case False
  hence ba: "b < a" using assms(1) by simp
  define P where "P = take b cl"
  define S where "S = drop (Suc b) cl"
  have cl1: "cl = P @ cl ! b # S" using assms(3) by (simp add: P_def S_def id_take_nth_drop)
  have lP: "length P = b" using assms(3) by (simp add: P_def)
  define k where "k = a - Suc b"
  have k: "k < length S" "a = Suc b + k" using ba assms(2) by (simp_all add: k_def S_def)
  define Q where "Q = take k S"
  define R where "R = drop (Suc k) S"
  have S1: "S = Q @ S ! k # R" using k(1) by (simp add: Q_def R_def id_take_nth_drop)
  have lQ: "length Q = k" using k(1) by (simp add: Q_def)
  have Sk: "S ! k = cl ! a" using k assms by (simp add: S_def)
  have cl2: "cl = P @ cl ! b # Q @ cl ! a # R" using cl1 S1 Sk by simp
  have "mergeClusters cl (int a) (int b) = splice1 b (cl[a := cl ! a @ cl ! b])"
    using assms(1) by (simp add: mergeClusters_def)
  also have "cl[a := cl ! a @ cl ! b] = P @ cl ! b # Q @ (cl ! a @ cl ! b) # R"
    by (subst cl2) (simp add: list_update_append lP lQ k(2) nth_append)
  also have "splice1 b \<dots> = P @ Q @ (cl ! a @ cl ! b) # R"
    using lP by (simp add: splice1_def)
  finally show ?thesis using cl2 by blast
qed

lemma mergeClusters_part:
  assumes "a \<noteq> b" "a < length cl" "b < length cl"
  shows "mset (concat (mergeClusters cl (int a) (int b))) = mset (concat cl)"
    and "[] \<notin> set cl \<Longrightarrow> [] \<notin> set (mergeClusters cl (int a) (int b))"
    and "sameCluster (mergeClusters cl (int a) (int b)) x y \<longleftrightarrow>
           sameCluster cl x y \<or> (x \<in> set (cl ! a) \<and> y \<in> set (cl ! b))
           \<or> (x \<in> set (cl ! b) \<and> y \<in> set (cl ! a))"
proof -
  obtain P Q R where d:
    "(cl = P @ cl ! a # Q @ cl ! b # R \<and>
        mergeClusters cl (int a) (int b) = P @ (cl ! a @ cl ! b) # Q @ R)
     \<or> (cl = P @ cl ! b # Q @ cl ! a # R \<and>
        mergeClusters cl (int a) (int b) = P @ Q @ (cl ! a @ cl ! b) # R)"
    using mergeClusters_decomp[OF assms] by blast
  define A where "A = cl ! a"
  define B where "B = cl ! b"
  define M where "M = mergeClusters cl (int a) (int b)"
  from d have d': "(cl = P @ A # Q @ B # R \<and> M = P @ (A @ B) # Q @ R)
     \<or> (cl = P @ B # Q @ A # R \<and> M = P @ Q @ (A @ B) # R)"
    by (simp add: A_def B_def M_def)
  show "mset (concat (mergeClusters cl (int a) (int b))) = mset (concat cl)"
    unfolding M_def[symmetric] using d' by auto
  show "[] \<notin> set cl \<Longrightarrow> [] \<notin> set (mergeClusters cl (int a) (int b))"
    unfolding M_def[symmetric] using d' by auto
  show "sameCluster (mergeClusters cl (int a) (int b)) x y \<longleftrightarrow>
           sameCluster cl x y \<or> (x \<in> set (cl ! a) \<and> y \<in> set (cl ! b))
           \<or> (x \<in> set (cl ! b) \<and> y \<in> set (cl ! a))"
    unfolding M_def[symmetric] A_def[symmetric] B_def[symmetric]
    using d' by (elim disjE conjE) (simp_all add: sameCluster_def, blast+)
qed

lemma mergeClusters_partInv:
  assumes "a = - 1 \<or> (0 \<le> a \<and> a < int (length cl))" "b = - 1 \<or> (0 \<le> b \<and> b < int (length cl))"
  shows "mset (concat (mergeClusters cl a b)) = mset (concat cl) \<and>
         ([] \<notin> set cl \<longrightarrow> [] \<notin> set (mergeClusters cl a b))"
proof (cases "a \<noteq> b \<and> a \<noteq> - 1 \<and> b \<noteq> - 1")
  case False
  then show ?thesis by (auto simp: mergeClusters_def)
next
  case True
  then obtain a' b' where ab: "a = int a'" "b = int b'" "a' < length cl" "b' < length cl" "a' \<noteq> b'"
    using assms by (metis nat_int nat_less_iff zero_le_imp_eq_int)
  show ?thesis
    unfolding ab(1,2)
    using mergeClusters_part(1)[OF ab(5,3,4)] mergeClusters_part(2)[OF ab(5,3,4)] by simp
qed


subsection \<open>The relation of sharing a cluster\<close>





lemma mset_concat_mem:
  assumes "mset (concat cl) = mset vs"
  shows "x \<in> set vs \<longleftrightarrow> (\<exists>c\<in>set cl. x \<in> set c)"
proof -
  have "set (concat cl) = set vs" using assms by (rule mset_eq_setD)
  thus ?thesis by auto
qed





lemma mset_concat_perm:
  assumes "mset xs = mset ys"
  shows "mset (concat xs) = mset (concat ys)"
proof -
  have "mset (concat xs) = sum_mset (image_mset mset (mset xs))"
    by (simp add: mset_concat flip: sum_mset_sum_list)
  also have "\<dots> = sum_mset (image_mset mset (mset ys))" using assms by simp
  also have "\<dots> = mset (concat ys)" by (simp add: mset_concat flip: sum_mset_sum_list)
  finally show ?thesis .
qed

subsection \<open>Similarity of statements with embeddings\<close>

lemma similarity_cosine:
  assumes "hasEmbedding u" "hasEmbedding v"
      and "map_option length (embedding u) = map_option length (embedding v)"
  shows "similarity u v = Inr (cosine (vec u) (vec v))"
  using assms
  by (auto simp: similarity_def hasEmbedding_def vec_def cosineSimilarity_cosine split: option.splits)

lemma similarity_mismatch:
  assumes "hasEmbedding u" "hasEmbedding v"
      and "map_option length (embedding u) \<noteq> map_option length (embedding v)"
  shows "similarity u v = Inl (Error ''Vectors must have the same length'')"
  using assms
  by (auto simp: similarity_def hasEmbedding_def cosineSimilarity_def split: option.splits)

lemma similarity_error:
  assumes "hasEmbedding u" "hasEmbedding v" "similarity u v = Inl e"
  shows "e = Error ''Vectors must have the same length''"
proof (cases "map_option length (embedding u) = map_option length (embedding v)")
  case True
  thus ?thesis using similarity_cosine[OF assms(1,2)] assms(3) by simp
next
  case False
  thus ?thesis using similarity_mismatch[OF assms(1,2)] assms(3) by simp
qed

lemma uniformDim_comparable:
  assumes "uniformDim vs" "\<forall>u\<in>set vs. hasEmbedding u"
  shows "\<forall>u\<in>set vs. \<forall>v\<in>set vs. \<exists>s. similarity u v = Inr s"
  using assms similarity_cosine unfolding uniformDim_def by blast

lemma uniformDim_subset: "uniformDim vs \<Longrightarrow> set c \<subseteq> set vs \<Longrightarrow> uniformDim c"
  unfolding uniformDim_def by blast


lemma simValue_ge:
  assumes "hasEmbedding u" "hasEmbedding v"
      and "map_option length (embedding u) = map_option length (embedding v)"
  shows "- 1 \<le> simValue u v"
proof -
  have l: "length (vec u) = length (vec v)"
    using assms by (auto simp: hasEmbedding_def vec_def split: option.splits)
  show ?thesis using similarity_cosine[OF assms] cosine_bounds[OF l] by (simp add: simValue_def)
qed

subsection \<open>The loop invariant\<close>





lemma concat_singletons: "concat (map (\<lambda>u. [u]) vs) = vs"
  by (induction vs) simp_all

lemma singletons_nonempty: "[] \<notin> set (map (\<lambda>u. [u]) vs)"
  by auto

text \<open>
  Without any assumption on identifiers the loop still keeps the clusters a partition
  of the statements into non-empty lists, and it fails exactly when some pair of
  embeddings cannot be compared.
\<close>

lemma pairStep_partInv:
  assumes "pairStep vs p cl = Inr cl'"
  shows "mset (concat cl') = mset (concat cl) \<and> ([] \<notin> set cl \<longrightarrow> [] \<notin> set cl')"
proof -
  obtain i j where p: "p = (i, j)" by (cases p)
  obtain s where s: "similarity (vs ! i) (vs ! j) = Inr s"
    using assms p by (auto simp: pairStep_def split: sum.splits)
  show ?thesis
  proof (cases "s \<ge> SIMILARITY_THRESHOLD")
    case False
    then show ?thesis using assms p s by (simp add: pairStep_def)
  next
    case True
    obtain a b where f: "findClusters cl (id_u (vs ! i)) (id_u (vs ! j)) = (a, b)"
      by (cases "findClusters cl (id_u (vs ! i)) (id_u (vs ! j))")
    have "cl' = mergeClusters cl a b" using assms p s True f by (simp add: pairStep_def)
    thus ?thesis using mergeClusters_partInv findClusters_range[OF f] by simp
  qed
qed

lemma mergeLoop_partInv:
  "mergeLoop vs ps cl = Inr cl' \<Longrightarrow>
     mset (concat cl') = mset (concat cl) \<and> ([] \<notin> set cl \<longrightarrow> [] \<notin> set cl')"
proof (induction ps arbitrary: cl)
  case Nil
  then show ?case by simp
next
  case (Cons p ps)
  then obtain cl1 where c1: "pairStep vs p cl = Inr cl1" and c2: "mergeLoop vs ps cl1 = Inr cl'"
    by (auto split: sum.splits)
  show ?case using pairStep_partInv[OF c1] Cons.IH[OF c2] by simp
qed

lemma mergeLoop_init_partInv:
  assumes "mergeLoop vs ps (map (\<lambda>u. [u]) vs) = Inr cl"
  shows "mset (concat cl) = mset vs" "[] \<notin> set cl"
  using mergeLoop_partInv[OF assms] singletons_nonempty[of vs]
  by (simp_all only: concat_singletons simp_thms)

lemma mergeLoop_total:
  assumes cmp: "\<forall>u\<in>set vs. \<forall>v\<in>set vs. \<exists>s. similarity u v = Inr s"
  shows "\<forall>p\<in>set ps. fst p < length vs \<and> snd p < length vs \<Longrightarrow> \<exists>cl'. mergeLoop vs ps cl = Inr cl'"
proof (induction ps arbitrary: cl)
  case Nil
  then show ?case by simp
next
  case (Cons p ps)
  obtain i j where p: "p = (i, j)" by (cases p)
  hence "vs ! i \<in> set vs" "vs ! j \<in> set vs" using Cons.prems by simp_all
  then obtain s where "similarity (vs ! i) (vs ! j) = Inr s" using cmp by blast
  hence "\<exists>cl1. pairStep vs p cl = Inr cl1"
    using p by (simp add: pairStep_def split: prod.splits)
  then obtain cl1 where c1: "pairStep vs p cl = Inr cl1" by blast
  have "\<exists>cl'. mergeLoop vs ps cl1 = Inr cl'" using Cons.IH Cons.prems by simp
  thus ?case using c1 by simp
qed

lemma pairStep_Inl:
  "pairStep vs p cl = Inl e \<Longrightarrow> similarity (vs ! fst p) (vs ! snd p) = Inl e"
  by (auto simp: pairStep_def split: prod.splits sum.splits if_splits)

lemma mergeLoop_error:
  "\<exists>p\<in>set ps. \<exists>e. similarity (vs ! fst p) (vs ! snd p) = Inl e \<Longrightarrow> \<exists>e. mergeLoop vs ps cl = Inl e"
proof (induction ps arbitrary: cl)
  case Nil
  then show ?case by simp
next
  case (Cons p ps)
  show ?case
  proof (cases "pairStep vs p cl")
    case (Inl e)
    then show ?thesis by simp
  next
    case (Inr cl1)
    hence "\<not> (\<exists>e. similarity (vs ! fst p) (vs ! snd p) = Inl e)"
      by (auto simp: pairStep_def split: prod.splits)
    with Cons.prems have "\<exists>p\<in>set ps. \<exists>e. similarity (vs ! fst p) (vs ! snd p) = Inl e" by auto
    from Cons.IH[OF this, of cl1] show ?thesis using Inr by simp
  qed
qed

lemma mergeLoop_Inl_source:
  "mergeLoop vs ps cl = Inl e \<Longrightarrow> \<exists>p\<in>set ps. similarity (vs ! fst p) (vs ! snd p) = Inl e"
proof (induction ps arbitrary: cl)
  case Nil
  then show ?case by simp
next
  case (Cons p ps)
  show ?case
  proof (cases "pairStep vs p cl")
    case (Inl e')
    hence "e' = e" using Cons.prems by simp
    thus ?thesis using pairStep_Inl[OF Inl] by simp
  next
    case (Inr cl1)
    hence "mergeLoop vs ps cl1 = Inl e" using Cons.prems by simp
    from Cons.IH[OF this] show ?thesis by auto
  qed
qed

lemma set_indexPairs: "set (indexPairs n) = {(i, j). i < j \<and> j < n}"
proof -
  have "(a, b) \<in> set (indexPairs n) \<longleftrightarrow> a < b \<and> b < n" for a b
  proof
    assume "(a, b) \<in> set (indexPairs n)"
    thus "a < b \<and> b < n" by (auto simp: indexPairs_def)
  next
    assume ab: "a < b \<and> b < n"
    hence "a \<in> {0..<n}" "(a, b) \<in> Pair a ` {Suc a..<n}" by auto
    thus "(a, b) \<in> set (indexPairs n)" unfolding indexPairs_def by (simp, blast)
  qed
  thus ?thesis by auto
qed

lemma indexPairs_range: "\<forall>p\<in>set (indexPairs n). fst p < n \<and> snd p < n"
  by (auto simp: set_indexPairs)

lemma indexPairs_0: "indexPairs 0 = []"
  by (simp add: indexPairs_def)

lemma not_uniformDim_error:
  assumes h: "\<forall>u\<in>set vs. hasEmbedding u" and nu: "\<not> uniformDim vs"
  shows "\<exists>e. mergeLoop vs (indexPairs (length vs)) cl = Inl e"
proof -
  obtain u v where uv: "u \<in> set vs" "v \<in> set vs"
    "map_option length (embedding u) \<noteq> map_option length (embedding v)"
    using nu unfolding uniformDim_def by blast
  obtain i j where ij: "i < length vs" "vs ! i = u" "j < length vs" "vs ! j = v"
    using uv(1,2) by (auto simp: in_set_conv_nth)
  have neq: "i \<noteq> j" using ij uv(3) by auto
  define a where "a = min i j"
  define b where "b = max i j"
  have ab: "a < b" "b < length vs" using neq ij by (auto simp: a_def b_def)
  have "map_option length (embedding (vs ! a)) \<noteq> map_option length (embedding (vs ! b))"
    using ij uv(3) by (auto simp: a_def b_def min_def max_def)
  moreover have "hasEmbedding (vs ! a)" "hasEmbedding (vs ! b)" using h ab by simp_all
  ultimately have "\<exists>e. similarity (vs ! a) (vs ! b) = Inl e"
    using similarity_mismatch by blast
  moreover have "(a, b) \<in> set (indexPairs (length vs))" using ab by (simp add: set_indexPairs)
  ultimately have "\<exists>p\<in>set (indexPairs (length vs)). \<exists>e. similarity (vs ! fst p) (vs ! snd p) = Inl e"
    by force
  thus ?thesis by (rule mergeLoop_error)
qed

subsection \<open>The clusters are the connected components\<close>





section \<open>Sorting\<close>

text \<open>With the comparator of line 89, \<open>sortBy\<close> is the library's stable insertion sort
  on the key "minus the length".\<close>

lemma insertBy_compareSize:
  "insertBy compareSize x ys = insort_key (\<lambda>c. - int (length c)) x ys"
  by (induction ys) (simp_all add: compareSize_def)

lemma sortBy_compareSize: "sortBy compareSize xs = sort_key (\<lambda>c. - int (length c)) xs"
  unfolding sortBy_def sort_key_def
  by (induction xs) (simp_all add: insertBy_compareSize)

lemma mset_sortBy: "mset (sortBy compareSize xs) = mset xs"
  by (simp add: sortBy_compareSize)

lemma set_sortBy: "set (sortBy compareSize xs) = set xs"
  by (simp add: sortBy_compareSize)

lemma length_sortBy: "length (sortBy compareSize xs) = length xs"
  by (simp add: sortBy_compareSize)

lemma sortBy_descending:
  "sorted_wrt (\<lambda>a b. length a \<ge> length b) (sortBy compareSize xs)"
proof -
  have "sorted (map (\<lambda>c. - int (length c)) (sort_key (\<lambda>c. - int (length c)) xs))"
    by (rule sorted_sort_key)
  thus ?thesis by (simp add: sortBy_compareSize sorted_map sorted_wrt_iff_nth_less)
qed

lemma sortBy_stable:
  "filter (\<lambda>c. length c = k) (sortBy compareSize xs) = filter (\<lambda>c. length c = k) xs"
proof -
  have "filter (\<lambda>c. - int (length c) = - int k) (sort_key (\<lambda>c. - int (length c)) xs)
        = filter (\<lambda>c. - int (length c) = - int k) xs"
    by (rule sort_key_stable)
  thus ?thesis by (simp add: sortBy_compareSize)
qed

lemma sortBy_single: "sortBy compareSize [c] = [c]"
  by (simp add: sortBy_def)

section \<open>Selecting the representative\<close>

lemma totalStep_Inr:
  "totalStep c i j (Inr t) =
     (if i \<noteq> j
      then (case similarity (c ! i) (c ! j) of Inl e \<Rightarrow> Inl e | Inr s \<Rightarrow> Inr (t + s))
      else Inr t)"
  by (simp add: totalStep_def)

lemma repStep_Inr:
  "repStep c i (Inr (r, mx)) =
     (case totalSimilarity c i of
        Inl e \<Rightarrow> Inl e
      | Inr tot \<Rightarrow>
          (if tot / (real (length c) - 1) > mx then Inr (i, tot / (real (length c) - 1))
           else Inr (r, mx)))"
  by (simp add: repStep_def Let_def split: sum.splits)

lemma fold_totalStep:
  "\<forall>j<m. j \<noteq> i \<longrightarrow> (\<exists>s. similarity (c ! i) (c ! j) = Inr s) \<Longrightarrow>
     fold (totalStep c i) [0..<m] (Inr t) =
       Inr (t + (\<Sum>j\<in>{..<m} - {i}. simValue (c ! i) (c ! j)))"
proof (induction m)
  case 0
  then show ?case by simp
next
  case (Suc m)
  hence IH: "fold (totalStep c i) [0..<m] (Inr t) =
       Inr (t + (\<Sum>j\<in>{..<m} - {i}. simValue (c ! i) (c ! j)))" by simp
  show ?case
  proof (cases "m = i")
    case True
    hence "{..<Suc m} - {i} = {..<m} - {i}" by auto
    thus ?thesis using IH True by (simp add: totalStep_Inr)
  next
    case False
    then obtain s where s: "similarity (c ! i) (c ! m) = Inr s" using Suc.prems by auto
    have "{..<Suc m} - {i} = insert m ({..<m} - {i})" using False by auto
    thus ?thesis using IH False s by (simp add: totalStep_Inr simValue_def)
  qed
qed

lemma totalSimilarity_avg:
  assumes "\<forall>j<length c. j \<noteq> i \<longrightarrow> (\<exists>s. similarity (c ! i) (c ! j) = Inr s)"
  shows "totalSimilarity c i = Inr (\<Sum>j\<in>{..<length c} - {i}. simValue (c ! i) (c ! j))"
  using fold_totalStep[OF assms, of 0] by (simp add: totalSimilarity_def)

lemma repInv_step:
  assumes "repInv avg m r mx"
  shows "repInv avg (Suc m) (if avg m > mx then m else r) (if avg m > mx then avg m else mx)"
proof (cases "\<forall>k<m. avg k \<le> - 1")
  case True
  hence r: "r = 0" "mx = - 1" using assms by (simp_all add: repInv_def)
  show ?thesis
  proof (cases "avg m > - 1")
    case True
    have "\<not> (\<forall>k<Suc m. avg k \<le> - 1)" using True by (auto intro: exI[of _ m])
    moreover have "\<forall>k<m. avg k < avg m" using \<open>\<forall>k<m. avg k \<le> - 1\<close> True by fastforce
    moreover have "\<forall>k<Suc m. avg k \<le> avg m"
      using \<open>\<forall>k<m. avg k < avg m\<close> by (auto simp: less_Suc_eq intro: less_imp_le)
    ultimately show ?thesis using True r by (simp add: repInv_def)
  next
    case False
    hence "\<forall>k<Suc m. avg k \<le> - 1" using True by (auto simp: less_Suc_eq)
    thus ?thesis using False r by (simp add: repInv_def)
  qed
next
  case False
  hence h: "r < m" "mx = avg r" "- 1 < mx" "\<forall>k<m. avg k \<le> avg r" "\<forall>k<r. avg k < avg r"
    using assms False by (auto simp: repInv_def split: if_splits)
  have nall: "\<not> (\<forall>k<Suc m. avg k \<le> - 1)" using False by (auto simp: less_Suc_eq)
  show ?thesis
  proof (cases "avg m > mx")
    case True
    have "\<forall>k<m. avg k < avg m" using h(2,4) True by fastforce
    moreover have "\<forall>k<Suc m. avg k \<le> avg m"
      using \<open>\<forall>k<m. avg k < avg m\<close> by (auto simp: less_Suc_eq intro: less_imp_le)
    moreover have "- 1 < avg m" using True h(3) by simp
    ultimately show ?thesis using True nall by (simp add: repInv_def)
  next
    case False
    hence "\<forall>k<Suc m. avg k \<le> avg r" using h(2,4) by (auto simp: less_Suc_eq)
    thus ?thesis using False nall h by (simp add: repInv_def)
  qed
qed

lemma fold_repStep:
  assumes "\<forall>k<m. totalSimilarity c k = Inr (T k)"
  shows "\<exists>r mx. fold (repStep c) [0..<m] (Inr (0, - 1)) = Inr (r, mx) \<and>
           repInv (\<lambda>k. T k / (real (length c) - 1)) m r mx"
  using assms
proof (induction m)
  case 0
  then show ?case by (simp add: repInv_def)
next
  case (Suc m)
  then obtain r mx where f: "fold (repStep c) [0..<m] (Inr (0, - 1)) = Inr (r, mx)"
    and inv: "repInv (\<lambda>k. T k / (real (length c) - 1)) m r mx" by auto
  have t: "totalSimilarity c m = Inr (T m)" using Suc.prems by simp
  let ?a = "T m / (real (length c) - 1)"
  have "fold (repStep c) [0..<Suc m] (Inr (0, - 1)) =
          Inr (if ?a > mx then m else r, if ?a > mx then ?a else mx)"
    using f t by (simp add: repStep_Inr)
  thus ?case using repInv_step[OF inv] by auto
qed

lemma avgSimilarity_ge:
  assumes h: "\<forall>u\<in>set c. hasEmbedding u" and u: "uniformDim c"
      and n: "1 < length c" and i: "i < length c"
  shows "- 1 \<le> avgSimilarity c i"
proof -
  have "- 1 \<le> simValue (c ! i) (c ! j)" if "j < length c" for j
    using h u i that by (intro simValue_ge) (auto simp: uniformDim_def)
  hence "(\<Sum>j\<in>{..<length c} - {i}. - 1) \<le> (\<Sum>j\<in>{..<length c} - {i}. simValue (c ! i) (c ! j))"
    by (intro sum_mono) auto
  moreover have "card ({..<length c} - {i}) = length c - 1" using i by simp
  ultimately have "- (real (length c) - 1) \<le> (\<Sum>j\<in>{..<length c} - {i}. simValue (c ! i) (c ! j))"
    using n by (simp add: of_nat_diff)
  thus ?thesis using n by (simp add: avgSimilarity_def pos_le_divide_eq)
qed

text \<open>
  Every average is at least -1, so when no average exceeds the initial value -1 all
  of them equal it and index 0, which the loop then leaves in place, is still the first
  maximum.
\<close>

lemma representativeIndex_spec:
  assumes h: "\<forall>u\<in>set c. hasEmbedding u" and u: "uniformDim c" and ne: "c \<noteq> []"
  shows "\<exists>r. representativeIndex c = Inr r \<and> r < length c \<and>
           (\<forall>k<length c. avgSimilarity c k \<le> avgSimilarity c r) \<and>
           (\<forall>k<r. avgSimilarity c k < avgSimilarity c r)"
proof (cases "1 < length c")
  case False
  hence "length c = 1" using ne by (cases c) simp_all
  thus ?thesis by (simp add: representativeIndex_def)
next
  case True
  define T where "T k = (\<Sum>j\<in>{..<length c} - {k}. simValue (c ! k) (c ! j))" for k
  have cmp: "\<exists>s. similarity (c ! k) (c ! j) = Inr s" if "k < length c" "j < length c" for k j
    using uniformDim_comparable[OF u h] that by simp
  have "\<forall>k<length c. totalSimilarity c k = Inr (T k)"
    unfolding T_def using cmp by (intro allI impI totalSimilarity_avg) blast
  then obtain r mx where f: "fold (repStep c) [0..<length c] (Inr (0, - 1)) = Inr (r, mx)"
    and inv: "repInv (\<lambda>k. T k / (real (length c) - 1)) (length c) r mx"
    using fold_repStep by blast
  have avg: "(\<lambda>k. T k / (real (length c) - 1)) = avgSimilarity c"
    by (simp add: T_def avgSimilarity_def fun_eq_iff)
  have inv': "repInv (avgSimilarity c) (length c) r mx" using inv unfolding avg .
  have ri: "representativeIndex c = Inr r" using f True by (simp add: representativeIndex_def)
  show ?thesis
  proof (cases "\<forall>k<length c. avgSimilarity c k \<le> - 1")
    case all: True
    hence r0: "r = 0" using inv' by (simp add: repInv_def)
    have m1: "avgSimilarity c k = - 1" if "k < length c" for k
      using all that avgSimilarity_ge[OF h u True that] by fastforce
    have "0 < length c" using ne by simp
    hence "avgSimilarity c 0 = - 1" by (rule m1)
    thus ?thesis using ri r0 True m1 ne by simp
  next
    case False
    thus ?thesis using ri inv' by (simp add: repInv_def)
  qed
qed

section \<open>The result of clusterUnderstandings\<close>

lemma toCluster_fields:
  "toCluster tot idx c = Inr x \<Longrightarrow>
     id_c x = idx + 1 \<and> understandings x = c \<and> size_c x = length c \<and>
     percentage x = (real (length c) / real tot) * 100 \<and>
     (\<exists>r. representativeIndex c = Inr r \<and> r < length c \<and>
          representative_text x = understanding_text (c ! r))"
  by (auto simp: toCluster_def split: sum.splits if_splits)

lemma toClusters_fields:
  "toClusters tot idx cl = Inr cs \<Longrightarrow>
     length cs = length cl \<and>
     (\<forall>k<length cl. toCluster tot (idx + k) (cl ! k) = Inr (cs ! k))"
proof (induction cl arbitrary: idx cs)
  case Nil
  then show ?case by simp
next
  case (Cons c cl)
  from Cons.prems obtain x xs where x: "toCluster tot idx c = Inr x"
    and xs: "toClusters tot (Suc idx) cl = Inr xs" and cs: "cs = x # xs"
    by (auto split: sum.splits)
  from Cons.IH[OF xs] have IH: "length xs = length cl"
    "\<forall>k<length cl. toCluster tot (Suc idx + k) (cl ! k) = Inr (xs ! k)" by simp_all
  show ?case
  proof (intro conjI allI impI)
    show "length cs = length (c # cl)" using cs IH(1) by simp
    fix k assume "k < length (c # cl)"
    thus "toCluster tot (idx + k) ((c # cl) ! k) = Inr (cs ! k)"
      using x IH(2) cs by (cases k) simp_all
  qed
qed

lemma toClusters_total:
  "\<forall>c\<in>set cl. \<exists>r. representativeIndex c = Inr r \<and> r < length c \<Longrightarrow>
     \<exists>cs. toClusters tot idx cl = Inr cs"
proof (induction cl arbitrary: idx)
  case Nil
  then show ?case by simp
next
  case (Cons c cl)
  obtain r where "representativeIndex c = Inr r" "r < length c" using Cons.prems by auto
  hence "\<exists>x. toCluster tot idx c = Inr x" by (simp add: toCluster_def)
  moreover have "\<exists>xs. toClusters tot (Suc idx) cl = Inr xs"
    using Cons.IH[of "Suc idx"] Cons.prems by simp
  ultimately show ?case by auto
qed

lemma clusterUnderstandings_struct:
  assumes "clusterUnderstandings us = Inr cs"
  shows "\<exists>cl. mergeLoop (filter hasEmbedding us) (indexPairs (length (filter hasEmbedding us)))
                 (map (\<lambda>u. [u]) (filter hasEmbedding us)) = Inr cl
              \<and> mset (concat cl) = mset (filter hasEmbedding us) \<and> [] \<notin> set cl
              \<and> length cs = length cl
              \<and> (\<forall>k<length cl. toCluster (length (filter hasEmbedding us)) k
                       (sortBy compareSize cl ! k) = Inr (cs ! k))"
proof (cases "filter hasEmbedding us = []")
  case True
  hence "cs = []" using assms by (simp add: clusterUnderstandings_def)
  thus ?thesis using True by (simp add: indexPairs_0)
next
  case False
  define vs where "vs = filter hasEmbedding us"
  have ne: "length vs \<noteq> 0" using False by (simp add: vs_def)
  from assms obtain cl where
    m: "mergeLoop vs (indexPairs (length vs)) (map (\<lambda>u. [u]) vs) = Inr cl"
    and t: "toClusters (length vs) 0 (sortBy compareSize cl) = Inr cs"
    using ne unfolding clusterUnderstandings_def vs_def[symmetric] Let_def
    by (auto split: sum.splits if_splits)
  have p: "mset (concat cl) = mset vs" "[] \<notin> set cl"
    using mergeLoop_init_partInv[OF m] by simp_all
  have "length cs = length cl"
    "\<forall>k<length cl. toCluster (length vs) k (sortBy compareSize cl ! k) = Inr (cs ! k)"
    using toClusters_fields[OF t] by (simp_all add: length_sortBy)
  thus ?thesis using m p unfolding vs_def by blast
qed


lemma clusterUnderstandings_total:
  assumes u: "uniformDim (filter hasEmbedding us)"
  shows "\<exists>cs. clusterUnderstandings us = Inr cs"
proof (cases "filter hasEmbedding us = []")
  case True
  thus ?thesis by (simp add: clusterUnderstandings_def)
next
  case False
  define vs where "vs = filter hasEmbedding us"
  have ne: "length vs \<noteq> 0" using False by (simp add: vs_def)
  have h: "\<forall>u\<in>set vs. hasEmbedding u" by (simp add: vs_def)
  have u': "uniformDim vs" using u by (simp add: vs_def)
  have cmp: "\<forall>u\<in>set vs. \<forall>v\<in>set vs. \<exists>s. similarity u v = Inr s"
    using u' h by (rule uniformDim_comparable)
  obtain cl where m: "mergeLoop vs (indexPairs (length vs)) (map (\<lambda>u. [u]) vs) = Inr cl"
    using mergeLoop_total[OF cmp indexPairs_range] by blast
  have p: "mset (concat cl) = mset vs" "[] \<notin> set cl"
    using mergeLoop_init_partInv[OF m] by simp_all
  have "\<exists>r. representativeIndex c = Inr r \<and> r < length c" if c: "c \<in> set (sortBy compareSize cl)" for c
  proof -
    have cc: "c \<in> set cl" using c by (simp add: set_sortBy)
    hence sub: "set c \<subseteq> set vs" using mset_concat_mem[OF p(1)] by blast
    have "c \<noteq> []" using cc p(2) by auto
    moreover have "\<forall>u\<in>set c. hasEmbedding u" using sub h by blast
    moreover have "uniformDim c" using u' sub by (rule uniformDim_subset)
    ultimately show ?thesis using representativeIndex_spec[of c] by blast
  qed
  hence "\<exists>cs. toClusters (length vs) 0 (sortBy compareSize cl) = Inr cs"
    by (intro toClusters_total) blast
  thus ?thesis using m ne unfolding clusterUnderstandings_def vs_def[symmetric] Let_def by simp
qed

lemma clusterUnderstandings_filter:
  "clusterUnderstandings us = clusterUnderstandings (filter hasEmbedding us)"
  by (simp add: clusterUnderstandings_def)

lemma hasEmbedding_iff: "hasEmbedding u \<longleftrightarrow> (\<exists>e. embedding u = Some e \<and> e \<noteq> [])"
  by (simp add: hasEmbedding_def split: option.splits)

lemma not_uniform_fails:
  assumes nu: "\<not> uniformDim (filter hasEmbedding us)"
  shows "clusterUnderstandings us = Inl (Error ''Vectors must have the same length'')"
proof -
  define vs where "vs = filter hasEmbedding us"
  have h: "\<forall>u\<in>set vs. hasEmbedding u" by (simp add: vs_def)
  have ne: "vs \<noteq> []" using nu unfolding vs_def[symmetric] by (auto simp: uniformDim_def)
  obtain e where e: "mergeLoop vs (indexPairs (length vs)) (map (\<lambda>u. [u]) vs) = Inl e"
    using not_uniformDim_error[OF h] nu unfolding vs_def by blast
  obtain p where p: "p \<in> set (indexPairs (length vs))"
    "similarity (vs ! fst p) (vs ! snd p) = Inl e"
    using mergeLoop_Inl_source[OF e] by blast
  have "fst p < length vs" "snd p < length vs" using p(1) indexPairs_range by blast+
  hence "hasEmbedding (vs ! fst p)" "hasEmbedding (vs ! snd p)" using h by simp_all
  hence "e = Error ''Vectors must have the same length''" using p(2) by (rule similarity_error)
  thus ?thesis using e ne unfolding clusterUnderstandings_def vs_def[symmetric] Let_def by simp
qed

lemma returned_merge:
  assumes r: "clusterUnderstandings us = Inr cs"
  shows "mergeLoop (filter hasEmbedding us) (indexPairs (length (filter hasEmbedding us)))
           (map (\<lambda>u. [u]) (filter hasEmbedding us)) = Inr (mergedClusters us)"
    and "mset (concat (mergedClusters us)) = mset (filter hasEmbedding us)"
    and "[] \<notin> set (mergedClusters us)"
    and "length cs = length (mergedClusters us)"
    and "\<forall>k<length cs. toCluster (length (filter hasEmbedding us)) k
                       (sortBy compareSize (mergedClusters us) ! k) = Inr (cs ! k)"
proof -
  obtain cl where cl:
    "mergeLoop (filter hasEmbedding us) (indexPairs (length (filter hasEmbedding us)))
        (map (\<lambda>u. [u]) (filter hasEmbedding us)) = Inr cl"
    "mset (concat cl) = mset (filter hasEmbedding us)" "[] \<notin> set cl"
    "length cs = length cl"
    "\<forall>k<length cl. toCluster (length (filter hasEmbedding us)) k
                       (sortBy compareSize cl ! k) = Inr (cs ! k)"
    using clusterUnderstandings_struct[OF r] by blast
  have e: "mergedClusters us = cl" using cl(1) by (simp add: mergedClusters_def)
  show "mergeLoop (filter hasEmbedding us) (indexPairs (length (filter hasEmbedding us)))
           (map (\<lambda>u. [u]) (filter hasEmbedding us)) = Inr (mergedClusters us)"
    unfolding e by (rule cl(1))
  show "mset (concat (mergedClusters us)) = mset (filter hasEmbedding us)"
    unfolding e by (rule cl(2))
  show "[] \<notin> set (mergedClusters us)" unfolding e by (rule cl(3))
  show "length cs = length (mergedClusters us)" unfolding e by (rule cl(4))
  show "\<forall>k<length cs. toCluster (length (filter hasEmbedding us)) k
                       (sortBy compareSize (mergedClusters us) ! k) = Inr (cs ! k)"
    unfolding e using cl(4,5) by simp
qed

lemma returned_nth:
  assumes r: "clusterUnderstandings us = Inr cs" and k: "k < length cs"
  shows "id_c (cs ! k) = k + 1"
    and "understandings (cs ! k) = sortBy compareSize (mergedClusters us) ! k"
    and "size_c (cs ! k) = length (understandings (cs ! k))"
    and "percentage (cs ! k) =
           (real (size_c (cs ! k)) / real (length (filter hasEmbedding us))) * 100"
    and "\<exists>r. representativeIndex (understandings (cs ! k)) = Inr r
             \<and> r < length (understandings (cs ! k))
             \<and> representative_text (cs ! k) = understanding_text (understandings (cs ! k) ! r)"
proof -
  have t: "toCluster (length (filter hasEmbedding us)) k
             (sortBy compareSize (mergedClusters us) ! k) = Inr (cs ! k)"
    using returned_merge(5)[OF r] k by simp
  note f = toCluster_fields[OF t]
  show "id_c (cs ! k) = k + 1" using f by simp
  show u: "understandings (cs ! k) = sortBy compareSize (mergedClusters us) ! k" using f by simp
  show s: "size_c (cs ! k) = length (understandings (cs ! k))" using f by simp
  show "percentage (cs ! k) =
           (real (size_c (cs ! k)) / real (length (filter hasEmbedding us))) * 100"
    using f by simp
  show "\<exists>r. representativeIndex (understandings (cs ! k)) = Inr r
             \<and> r < length (understandings (cs ! k))
             \<and> representative_text (cs ! k) = understanding_text (understandings (cs ! k) ! r)"
    unfolding u using f by simp
qed

lemma returned_understandings:
  assumes r: "clusterUnderstandings us = Inr cs"
  shows "map understandings cs = sortBy compareSize (mergedClusters us)"
  using returned_nth(2)[OF r] returned_merge(4)[OF r]
  by (intro nth_equalityI) (simp_all add: length_sortBy)


lemma in_set_nthE:
  assumes "c \<in> set cs"
  obtains k where "k < length cs" "cs ! k = c"
  using assms by (auto simp: in_set_conv_nth)

lemma returned_sizes:
  assumes r: "clusterUnderstandings us = Inr cs"
  shows "sum_list (map size_c cs) = length (filter hasEmbedding us)"
    and "\<forall>c\<in>set cs. size_c c = length (understandings c) \<and>
           percentage c = (real (size_c c) / real (length (filter hasEmbedding us))) * 100"
    and "mset (concat (map understandings cs)) = mset (filter hasEmbedding us)"
    and "\<forall>c\<in>set cs. understandings c \<noteq> []"
proof -
  show 2: "\<forall>c\<in>set cs. size_c c = length (understandings c) \<and>
           percentage c = (real (size_c c) / real (length (filter hasEmbedding us))) * 100"
  proof
    fix c assume "c \<in> set cs"
    then obtain k where k: "k < length cs" "cs ! k = c" by (rule in_set_nthE)
    show "size_c c = length (understandings c) \<and>
           percentage c = (real (size_c c) / real (length (filter hasEmbedding us))) * 100"
      using returned_nth(3)[OF r k(1)] returned_nth(4)[OF r k(1)] unfolding k(2) by simp
  qed
  have srt: "map understandings cs = sortBy compareSize (mergedClusters us)"
    by (rule returned_understandings[OF r])
  have "mset (concat (sortBy compareSize (mergedClusters us))) = mset (concat (mergedClusters us))"
    by (rule mset_concat_perm) (rule mset_sortBy)
  thus 3: "mset (concat (map understandings cs)) = mset (filter hasEmbedding us)"
    unfolding srt using returned_merge(2)[OF r] by simp
  have "map size_c cs = map length (map understandings cs)" using 2 by simp
  hence "sum_list (map size_c cs) = length (concat (map understandings cs))"
    by (simp only: length_concat)
  also have "\<dots> = length (filter hasEmbedding us)" using 3 by (rule mset_eq_length)
  finally show "sum_list (map size_c cs) = length (filter hasEmbedding us)" .
  have "set (map understandings cs) = set (mergedClusters us)" unfolding srt by (rule set_sortBy)
  hence "[] \<notin> set (map understandings cs)" using returned_merge(3)[OF r] by simp
  thus "\<forall>c\<in>set cs. understandings c \<noteq> []" by (metis image_eqI set_map)
qed

lemma returned_sorted:
  assumes r: "clusterUnderstandings us = Inr cs"
  shows "sorted_wrt (\<lambda>a b. size_c a \<ge> size_c b) cs"
proof -
  have "sorted_wrt (\<lambda>a b. length a \<ge> length b) (map understandings cs)"
    unfolding returned_understandings[OF r] by (rule sortBy_descending)
  hence "sorted_wrt (\<lambda>a b. length (understandings a) \<ge> length (understandings b)) cs"
    by (simp add: sorted_wrt_map)
  moreover have "\<forall>c\<in>set cs. size_c c = length (understandings c)"
    using returned_sizes(2)[OF r] by simp
  ultimately show "sorted_wrt (\<lambda>a b. size_c a \<ge> size_c b) cs"
    by (simp add: sorted_wrt_iff_nth_less)
qed

lemma returned_members:
  assumes r: "clusterUnderstandings us = Inr cs" and c: "c \<in> set cs"
  shows "set (understandings c) \<subseteq> set (filter hasEmbedding us)" and "understandings c \<noteq> []"
proof -
  have "understandings c \<in> set (map understandings cs)" using c by simp
  thus "set (understandings c) \<subseteq> set (filter hasEmbedding us)"
    using mset_concat_mem[OF returned_sizes(3)[OF r]] by blast
  show "understandings c \<noteq> []" using returned_sizes(4)[OF r] c by blast
qed


section \<open>The example statements, evaluated\<close>

lemma mk_fields:
  "id_u (mkUnderstanding i t e) = i"
  "understanding_text (mkUnderstanding i t e) = t"
  "embedding (mkUnderstanding i t e) = e"
  by (simp_all add: mkUnderstanding_def)

lemma ex_ids:
  "id_u exA = ''a''" "id_u exB = ''b''" "id_u exC = ''c''" "id_u exD = ''d''"
  "id_u exNull = ''n''" "id_u exEmpty = ''e''" "id_u exShort = ''s''"
  by (simp_all add: exA_def exB_def exC_def exD_def exNull_def exEmpty_def exShort_def mk_fields)

lemma ex_texts:
  "understanding_text exA = ''text A''" "understanding_text exB = ''text B''"
  "understanding_text exC = ''text C''" "understanding_text exD = ''text D''"
  by (simp_all add: exA_def exB_def exC_def exD_def mk_fields)

lemma ex_embeddings:
  "embedding exA = Some [2, 1, 0]" "embedding exB = Some [2, - 1, 0]"
  "embedding exC = Some [2, 0, 1]" "embedding exD = Some [2, 0, - 1]"
  "embedding exNull = None" "embedding exEmpty = Some []" "embedding exShort = Some [1]"
  by (simp_all add: exA_def exB_def exC_def exD_def exNull_def exEmpty_def exShort_def mk_fields)

lemma ex_hasEmbedding:
  "hasEmbedding exA" "hasEmbedding exB" "hasEmbedding exC" "hasEmbedding exD"
  "\<not> hasEmbedding exNull" "\<not> hasEmbedding exEmpty" "hasEmbedding exShort"
  by (simp_all add: hasEmbedding_def ex_embeddings)

lemma cos_35: "cosine [2, 1, 0] [2, - 1, 0] = 3 / 5" "cosine [2, - 1, 0] [2, 1, 0] = 3 / 5"
  "cosine [2, 0, 1] [2, 0, - 1] = 3 / 5" "cosine [2, 0, - 1] [2, 0, 1] = 3 / 5"
  by (simp_all add: cosine_def magnitude_def dotProduct_def)

lemma cos_45: "cosine [2, 1, 0] [2, 0, 1] = 4 / 5" "cosine [2, 0, 1] [2, 1, 0] = 4 / 5"
  "cosine [2, 1, 0] [2, 0, - 1] = 4 / 5" "cosine [2, 0, - 1] [2, 1, 0] = 4 / 5"
  "cosine [2, - 1, 0] [2, 0, 1] = 4 / 5" "cosine [2, 0, 1] [2, - 1, 0] = 4 / 5"
  "cosine [2, - 1, 0] [2, 0, - 1] = 4 / 5" "cosine [2, 0, - 1] [2, - 1, 0] = 4 / 5"
  by (simp_all add: cosine_def magnitude_def dotProduct_def)

lemma ex_similarity:
  "similarity exA exB = Inr (3 / 5)" "similarity exB exA = Inr (3 / 5)"
  "similarity exC exD = Inr (3 / 5)" "similarity exD exC = Inr (3 / 5)"
  "similarity exA exC = Inr (4 / 5)" "similarity exC exA = Inr (4 / 5)"
  "similarity exA exD = Inr (4 / 5)" "similarity exD exA = Inr (4 / 5)"
  "similarity exB exC = Inr (4 / 5)" "similarity exC exB = Inr (4 / 5)"
  "similarity exB exD = Inr (4 / 5)" "similarity exD exB = Inr (4 / 5)"
  by (simp_all add: similarity_def ex_embeddings cosineSimilarity_cosine cos_35 cos_45)

lemma ex_similarity_short: "similarity exA exShort = Inl (Error ''Vectors must have the same length'')"
  by (simp add: similarity_def ex_embeddings cosineSimilarity_def)

lemma indexPairs_2: "indexPairs 2 = [(0, 1)]"
  by code_simp

lemma indexPairs_3: "indexPairs 3 = [(0, 1), (0, 2), (1, 2)]"
  by code_simp

lemma indexPairs_4: "indexPairs 4 = [(0, 1), (0, 2), (0, 3), (1, 2), (1, 3), (2, 3)]"
  by code_simp


lemma upt_4: "[0..<4] = [0, 1, 2, 3]"
  by code_simp

lemma merge_AB: "mergeLoop [exA, exB] (indexPairs 2) [[exA], [exB]] = Inr [[exA], [exB]]"
  by (simp add: indexPairs_2 pairStep_def ex_similarity SIMILARITY_THRESHOLD_def)


lemma merge_ABCD:
  "mergeLoop [exA, exB, exC, exD] (indexPairs 4) [[exA], [exB], [exC], [exD]]
     = Inr [[exB, exA, exC, exD]]"
  by (simp add: indexPairs_4 pairStep_def ex_similarity SIMILARITY_THRESHOLD_def
        findClusters_def findStep_def ex_ids mergeClusters_def splice1_def)


lemma rep_BACD: "representativeIndex [exB, exA, exC, exD] = Inr 0"
  by (simp add: representativeIndex_def upt_4 repStep_Inr totalSimilarity_def totalStep_Inr
        ex_similarity)


lemma eval_ABCD:
  "clusterUnderstandings [exA, exB, exC, exD] =
     Inr [\<lparr>id_c = 1, understandings = [exB, exA, exC, exD], representative_text = ''text B'',
           size_c = 4, percentage = 100\<rparr>]"
proof -
  have f: "filter hasEmbedding [exA, exB, exC, exD] = [exA, exB, exC, exD]"
    by (simp add: ex_hasEmbedding)
  have l: "length [exA, exB, exC, exD] = 4" by simp
  show ?thesis
    unfolding clusterUnderstandings_def Let_def f l
    using merge_ABCD by (simp add: sortBy_single toCluster_def rep_BACD ex_texts)
qed

lemma filter_exs: "filter hasEmbedding [exA, exNull, exB, exC, exD] = [exA, exB, exC, exD]"
  by (simp add: ex_hasEmbedding)

lemma eval_exs:
  "clusterUnderstandings [exA, exNull, exB, exC, exD] =
     Inr [\<lparr>id_c = 1, understandings = [exB, exA, exC, exD], representative_text = ''text B'',
           size_c = 4, percentage = 100\<rparr>]"
  using clusterUnderstandings_filter[of "[exA, exNull, exB, exC, exD]"] eval_ABCD
  by (simp only: filter_exs)

lemma uniformDim_AB: "uniformDim (filter hasEmbedding [exA, exB])"
  by (simp add: uniformDim_def ex_embeddings ex_hasEmbedding)

lemma uniformDim_ABCD: "uniformDim [exA, exB, exC, exD]"
  by (simp add: uniformDim_def ex_embeddings)

section \<open>The claims about clustering and consensus\<close>






text \<open>
  C3: calculateConsensus returns 0 for the empty cluster list and otherwise reads the
  percentage of the first cluster, unchanged. In a list returned by
  clusterUnderstandings the first cluster has id 1 and is a largest one, so no cluster
  has a larger percentage; the consensus is (its size / number of valid statements) *
  100, and it is 100 when the list has a single cluster.
\<close>

theorem consensus_is_top_percentage:
  "calculateConsensus [] = 0
   \<and> (\<forall>cs. cs \<noteq> [] \<longrightarrow> calculateConsensus cs = percentage (cs ! 0))
   \<and> (\<forall>cs. clusterUnderstandings us = Inr cs \<and> cs \<noteq> [] \<longrightarrow>
         id_c (cs ! 0) = 1
         \<and> (\<forall>c\<in>set cs. size_c c \<le> size_c (cs ! 0) \<and> percentage c \<le> calculateConsensus cs)
         \<and> calculateConsensus cs
             = (real (size_c (cs ! 0)) / real (length (filter hasEmbedding us))) * 100)
   \<and> (\<forall>cs. clusterUnderstandings us = Inr cs \<and> length cs = 1 \<longrightarrow> calculateConsensus cs = 100)"
proof (intro conjI allI impI)
  show "calculateConsensus [] = 0" by (simp add: calculateConsensus_def)
next
  fix cs :: "Cluster list" assume "cs \<noteq> []"
  thus "calculateConsensus cs = percentage (cs ! 0)" by (simp add: calculateConsensus_def)
next
  fix cs assume a: "clusterUnderstandings us = Inr cs \<and> cs \<noteq> []"
  hence r: "clusterUnderstandings us = Inr cs" and ne: "cs \<noteq> []" by simp_all
  have 0: "0 < length cs" "cs ! 0 \<in> set cs" using ne by simp_all
  show "id_c (cs ! 0) = 1" using returned_nth(1)[OF r 0(1)] by simp
  have cc: "calculateConsensus cs = percentage (cs ! 0)" using ne by (simp add: calculateConsensus_def)
  have pc: "\<forall>c\<in>set cs. percentage c = (real (size_c c) / real (length (filter hasEmbedding us))) * 100"
    using returned_sizes(2)[OF r] by simp
  show "calculateConsensus cs = (real (size_c (cs ! 0)) / real (length (filter hasEmbedding us))) * 100"
    using cc pc 0 by simp
  show "\<forall>c\<in>set cs. size_c c \<le> size_c (cs ! 0) \<and> percentage c \<le> calculateConsensus cs"
  proof
    fix c assume c: "c \<in> set cs"
    then obtain k where k: "k < length cs" "cs ! k = c" by (rule in_set_nthE)
    have le: "size_c c \<le> size_c (cs ! 0)"
    proof (cases k)
      case 0
      thus ?thesis using k by simp
    next
      case (Suc k')
      hence "0 < k" by simp
      hence "size_c (cs ! k) \<le> size_c (cs ! 0)"
        using returned_sorted[OF r] k(1) unfolding sorted_wrt_iff_nth_less by blast
      thus ?thesis using k(2) by simp
    qed
    hence "real (size_c c) / real (length (filter hasEmbedding us))
            \<le> real (size_c (cs ! 0)) / real (length (filter hasEmbedding us))"
      by (intro divide_right_mono) simp_all
    hence "(real (size_c c) / real (length (filter hasEmbedding us))) * 100
            \<le> (real (size_c (cs ! 0)) / real (length (filter hasEmbedding us))) * 100"
      by (intro mult_right_mono) simp_all
    moreover have "percentage c = (real (size_c c) / real (length (filter hasEmbedding us))) * 100"
      "percentage (cs ! 0) = (real (size_c (cs ! 0)) / real (length (filter hasEmbedding us))) * 100"
      using pc c 0(2) by blast+
    ultimately have "percentage c \<le> percentage (cs ! 0)" by (simp only:)
    thus "size_c c \<le> size_c (cs ! 0) \<and> percentage c \<le> calculateConsensus cs" using le cc by simp
  qed
next
  fix cs assume a: "clusterUnderstandings us = Inr cs \<and> length cs = 1"
  hence r: "clusterUnderstandings us = Inr cs" and l: "length cs = 1" by simp_all
  obtain c where c: "cs = [c]" using l by (cases cs) simp_all
  have "size_c c = length (filter hasEmbedding us)" using returned_sizes(1)[OF r] c by simp
  moreover have "understandings c \<noteq> []" "size_c c = length (understandings c)"
    using returned_sizes(4)[OF r] returned_sizes(2)[OF r] c by simp_all
  moreover have "percentage c = (real (size_c c) / real (length (filter hasEmbedding us))) * 100"
    using returned_sizes(2)[OF r] c by simp
  ultimately have "percentage c = 100" by (cases "filter hasEmbedding us") simp_all
  thus "calculateConsensus cs = 100" using c by (simp add: calculateConsensus_def)
qed

theorem consensus_is_top_percentage_witness:
  "clusterUnderstandings [exA, exNull, exB, exC, exD] =
     Inr [\<lparr>id_c = 1, understandings = [exB, exA, exC, exD], representative_text = ''text B'',
           size_c = 4, percentage = 100\<rparr>]
   \<and> calculateConsensus [\<lparr>id_c = 1, understandings = [exB, exA, exC, exD],
           representative_text = ''text B'', size_c = 4, percentage = 100\<rparr>] = 100"
proof -
  let ?cs = "[\<lparr>id_c = 1, understandings = [exB, exA, exC, exD], representative_text = ''text B'',
           size_c = 4, percentage = 100\<rparr>]"
  note t = consensus_is_top_percentage[of "[exA, exNull, exB, exC, exD]"]
  note p = spec[OF conjunct2[OF conjunct2[OF conjunct2[OF t]]], of ?cs]
  have "clusterUnderstandings [exA, exNull, exB, exC, exD] = Inr ?cs \<and> length ?cs = 1"
    using eval_exs by simp
  hence "calculateConsensus ?cs = 100" by (rule mp[OF p])
  thus ?thesis using eval_exs by (intro conjI)
qed



text \<open>
  C5: the clusters returned by clusterUnderstandings are in non-increasing order of size
  and carry the ids 1, 2, ..., N in that order; the list of their member lists is the
  stable sort of the list the merge loop left, so clusters of equal size keep the
  relative order they had before the sort.
\<close>

theorem sorted_ranked_stable:
  "(uniformDim (filter hasEmbedding us) \<longrightarrow> (\<exists>cs. clusterUnderstandings us = Inr cs))
   \<and> (\<forall>cs. clusterUnderstandings us = Inr cs \<longrightarrow>
         sorted_wrt (\<lambda>a b. size_c a \<ge> size_c b) cs
         \<and> map id_c cs = map Suc [0..<length cs]
         \<and> (\<exists>cl. mergeLoop (filter hasEmbedding us) (indexPairs (length (filter hasEmbedding us)))
                    (map (\<lambda>u. [u]) (filter hasEmbedding us)) = Inr cl
                \<and> map understandings cs = sortBy compareSize cl
                \<and> mset (map understandings cs) = mset cl
                \<and> (\<forall>n. filter (\<lambda>c. length c = n) (map understandings cs)
                          = filter (\<lambda>c. length c = n) cl)))"
proof (intro conjI allI impI)
  assume "uniformDim (filter hasEmbedding us)"
  thus "\<exists>cs. clusterUnderstandings us = Inr cs" by (rule clusterUnderstandings_total)
next
  fix cs assume r: "clusterUnderstandings us = Inr cs"
  show "sorted_wrt (\<lambda>a b. size_c a \<ge> size_c b) cs" by (rule returned_sorted[OF r])
  show "map id_c cs = map Suc [0..<length cs]"
    using returned_nth(1)[OF r] by (intro nth_equalityI) simp_all
  define cl where "cl = mergedClusters us"
  have cl:
    "mergeLoop (filter hasEmbedding us) (indexPairs (length (filter hasEmbedding us)))
        (map (\<lambda>u. [u]) (filter hasEmbedding us)) = Inr cl"
    "map understandings cs = sortBy compareSize cl"
    unfolding cl_def by (rule returned_merge(1)[OF r], rule returned_understandings[OF r])
  show "\<exists>cl. mergeLoop (filter hasEmbedding us) (indexPairs (length (filter hasEmbedding us)))
                    (map (\<lambda>u. [u]) (filter hasEmbedding us)) = Inr cl
                \<and> map understandings cs = sortBy compareSize cl
                \<and> mset (map understandings cs) = mset cl
                \<and> (\<forall>n. filter (\<lambda>c. length c = n) (map understandings cs)
                          = filter (\<lambda>c. length c = n) cl)"
    using cl by (intro exI[of _ cl]) (simp add: mset_sortBy sortBy_stable)
qed

theorem sorted_ranked_stable_witness:
  "uniformDim (filter hasEmbedding [exA, exB])
   \<and> (\<exists>cs. clusterUnderstandings [exA, exB] = Inr cs
          \<and> sorted_wrt (\<lambda>a b. size_c a \<ge> size_c b) cs
          \<and> map id_c cs = map Suc [0..<length cs]
          \<and> map understandings cs = [[exA], [exB]])"
proof -
  note t = sorted_ranked_stable[of "[exA, exB]"]
  obtain cs where cs: "clusterUnderstandings [exA, exB] = Inr cs"
    using mp[OF conjunct1[OF t] uniformDim_AB] by (elim exE)
  note p = mp[OF spec[OF conjunct2[OF t]] cs]
  have s: "sorted_wrt (\<lambda>a b. size_c a \<ge> size_c b) cs" using conjunct1[OF p] .
  have i: "map id_c cs = map Suc [0..<length cs]" using conjunct1[OF conjunct2[OF p]] .
  obtain cl where cl: "mergeLoop (filter hasEmbedding [exA, exB])
        (indexPairs (length (filter hasEmbedding [exA, exB])))
        (map (\<lambda>u. [u]) (filter hasEmbedding [exA, exB])) = Inr cl"
    "map understandings cs = sortBy compareSize cl"
    using conjunct2[OF conjunct2[OF p]] by (elim exE conjE)
  have f: "filter hasEmbedding [exA, exB] = [exA, exB]" by (simp add: ex_hasEmbedding)
  have l: "length [exA, exB] = 2" by simp
  have "mergeLoop [exA, exB] (indexPairs 2) [[exA], [exB]] = Inr cl"
    using cl(1) unfolding f l by simp
  hence "cl = [[exA], [exB]]" using merge_AB by simp
  hence m: "map understandings cs = [[exA], [exB]]"
    using cl(2) by (simp add: sortBy_def compareSize_def)
  show ?thesis using uniformDim_AB cs s i m by (intro conjI exI[of _ cs])
qed

text \<open>
  C8 (as amended): clusterUnderstandings drops exactly the statements whose embedding is
  null or empty: the result is that of the remaining statements alone, a returned
  cluster holds only input statements with a non-empty embedding, all of those are in
  the clusters, and the percentage denominator is their number; with no such statement
  the result is the empty list and not an error. An embedding that is present and
  non-empty is never dropped, whatever its length: when the non-empty embeddings all
  have one length the call returns clusters, and when two of them differ in length the
  call fails with the length error of cosineSimilarity.
\<close>

theorem null_or_empty_embeddings_are_dropped:
  "(\<forall>u. hasEmbedding u \<longleftrightarrow> (\<exists>e. embedding u = Some e \<and> e \<noteq> []))
   \<and> clusterUnderstandings us = clusterUnderstandings (filter hasEmbedding us)
   \<and> (filter hasEmbedding us = [] \<longrightarrow> clusterUnderstandings us = Inr [])
   \<and> (\<forall>cs. clusterUnderstandings us = Inr cs \<longrightarrow>
         mset (concat (map understandings cs)) = mset (filter hasEmbedding us)
         \<and> (\<forall>c\<in>set cs. (\<forall>u\<in>set (understandings c). u \<in> set us \<and> hasEmbedding u)
               \<and> percentage c = (real (size_c c) / real (length (filter hasEmbedding us))) * 100))
   \<and> (uniformDim (filter hasEmbedding us) \<longrightarrow> (\<exists>cs. clusterUnderstandings us = Inr cs))
   \<and> (\<not> uniformDim (filter hasEmbedding us) \<longrightarrow>
         clusterUnderstandings us = Inl (Error ''Vectors must have the same length''))"
proof (intro conjI allI impI ballI)
  fix u show "hasEmbedding u \<longleftrightarrow> (\<exists>e. embedding u = Some e \<and> e \<noteq> [])" by (rule hasEmbedding_iff)
next
  show "clusterUnderstandings us = clusterUnderstandings (filter hasEmbedding us)"
    by (rule clusterUnderstandings_filter)
next
  assume "filter hasEmbedding us = []"
  thus "clusterUnderstandings us = Inr []" by (simp add: clusterUnderstandings_def)
next
  fix cs assume r: "clusterUnderstandings us = Inr cs"
  show "mset (concat (map understandings cs)) = mset (filter hasEmbedding us)"
    by (rule returned_sizes(3)[OF r])
next
  fix cs c u assume r: "clusterUnderstandings us = Inr cs" and c: "c \<in> set cs"
    and u: "u \<in> set (understandings c)"
  have "u \<in> set (filter hasEmbedding us)" using returned_members(1)[OF r c] u by blast
  thus "u \<in> set us" "hasEmbedding u" by simp_all
next
  fix cs c assume r: "clusterUnderstandings us = Inr cs" and c: "c \<in> set cs"
  show "percentage c = (real (size_c c) / real (length (filter hasEmbedding us))) * 100"
    using returned_sizes(2)[OF r] c by blast
next
  assume "uniformDim (filter hasEmbedding us)"
  thus "\<exists>cs. clusterUnderstandings us = Inr cs" by (rule clusterUnderstandings_total)
next
  assume "\<not> uniformDim (filter hasEmbedding us)"
  thus "clusterUnderstandings us = Inl (Error ''Vectors must have the same length'')"
    by (rule not_uniform_fails)
qed

theorem null_or_empty_embeddings_are_dropped_witness:
  "filter hasEmbedding [exNull, exEmpty] = []
   \<and> clusterUnderstandings [exNull, exEmpty] = Inr []
   \<and> uniformDim (filter hasEmbedding [exA, exNull, exB, exC, exD])
   \<and> (\<exists>cs. clusterUnderstandings [exA, exNull, exB, exC, exD] = Inr cs
          \<and> (\<forall>c\<in>set cs. exNull \<notin> set (understandings c)))
   \<and> \<not> uniformDim (filter hasEmbedding [exA, exC, exShort])
   \<and> clusterUnderstandings [exA, exC, exShort] = Inl (Error ''Vectors must have the same length'')"
proof -
  have e: "filter hasEmbedding [exNull, exEmpty] = []" by (simp add: ex_hasEmbedding)
  note t0 = null_or_empty_embeddings_are_dropped[of "[exNull, exEmpty]"]
  have 1: "clusterUnderstandings [exNull, exEmpty] = Inr []"
    using mp[OF conjunct1[OF conjunct2[OF conjunct2[OF t0]]] e] .
  have u: "uniformDim (filter hasEmbedding [exA, exNull, exB, exC, exD])"
    unfolding filter_exs by (rule uniformDim_ABCD)
  note t = null_or_empty_embeddings_are_dropped[of "[exA, exNull, exB, exC, exD]"]
  note t4 = conjunct2[OF conjunct2[OF conjunct2[OF t]]]
  obtain cs where cs: "clusterUnderstandings [exA, exNull, exB, exC, exD] = Inr cs"
    using mp[OF conjunct1[OF conjunct2[OF t4]] u] by (elim exE)
  note p = conjunct2[OF mp[OF spec[OF conjunct1[OF t4]] cs]]
  have 2: "\<forall>c\<in>set cs. exNull \<notin> set (understandings c)"
  proof
    fix c assume "c \<in> set cs"
    hence "\<forall>u\<in>set (understandings c). u \<in> set [exA, exNull, exB, exC, exD] \<and> hasEmbedding u"
      using p by blast
    thus "exNull \<notin> set (understandings c)" using ex_hasEmbedding(5) by blast
  qed
  have nu: "\<not> uniformDim (filter hasEmbedding [exA, exC, exShort])"
    by (simp add: uniformDim_def ex_embeddings ex_hasEmbedding)
  note ts = null_or_empty_embeddings_are_dropped[of "[exA, exC, exShort]"]
  have 3: "clusterUnderstandings [exA, exC, exShort] = Inl (Error ''Vectors must have the same length'')"
    using mp[OF conjunct2[OF conjunct2[OF conjunct2[OF conjunct2[OF conjunct2[OF ts]]]]] nu] .
  show ?thesis using e 1 u cs 2 nu 3 by (intro conjI exI[of _ cs])
qed

text \<open>
  C8 as stated fails on a statement whose embedding is present but of the wrong length:
  it is not discarded, and its presence makes the clustering of the whole batch fail.
\<close>

theorem mismatched_embedding_is_fatal:
  "hasEmbedding exShort
   \<and> clusterUnderstandings [exA, exC, exShort] = Inl (Error ''Vectors must have the same length'')"
proof -
  have f: "filter hasEmbedding [exA, exC, exShort] = [exA, exC, exShort]"
    by (simp add: ex_hasEmbedding)
  have l: "length [exA, exC, exShort] = 3" by simp
  have "clusterUnderstandings [exA, exC, exShort] = Inl (Error ''Vectors must have the same length'')"
    unfolding clusterUnderstandings_def Let_def f l
    by (simp add: indexPairs_3 pairStep_def ex_similarity ex_similarity_short
          SIMILARITY_THRESHOLD_def findClusters_def findStep_def ex_ids mergeClusters_def splice1_def)
  thus ?thesis by (simp add: ex_hasEmbedding)
qed

text \<open>
  C9: the claim gives "Accepted" for a consensus percentage of 70 or more. The code of
  the ADR route compares with \<open>> 70\<close>: at exactly 70 the status is "Proposed".
\<close>

theorem adrStatus_at_70: "adrStatus 70 = ''Proposed'' \<and> adrStatus 70 \<noteq> ''Accepted''"
  by (simp add: adrStatus_def)



end
